theory Spec2Isabelle
  imports Main "HOL-Library.Sublist" "HOL-Library.Word"
begin

section \<open>Text, characters and the regular expressions of the reconstructor\<close>

text \<open>
  A Python \<^verbatim>\<open>str\<close> is a sequence of Unicode code points; a code point is modelled as a
  natural number and a text as a list of them. \<open>str\<close> turns an ASCII literal of the
  theory into such a text.
\<close>

type_synonym codepoint = nat
type_synonym pystr = "codepoint list"

definition str :: "string \<Rightarrow> pystr" where
  "str s = map of_char s"

text \<open>
  The class \<^verbatim>\<open>\s\<close> of a Unicode pattern: the code points for which CPython's
  \<^verbatim>\<open>Py_UNICODE_ISSPACE\<close> holds (tab to carriage return, the four separators
  U+001C to U+001F, space, U+0085, U+00A0, U+1680, U+2000 to U+200A, U+2028, U+2029,
  U+202F, U+205F, U+3000).
\<close>

definition is_space :: "codepoint \<Rightarrow> bool" where
  "is_space c \<longleftrightarrow>
     (9 \<le> c \<and> c \<le> 13) \<or> (28 \<le> c \<and> c \<le> 32) \<or> c = 133 \<or> c = 160 \<or> c = 5760 \<or>
     (8192 \<le> c \<and> c \<le> 8202) \<or> c = 8232 \<or> c = 8233 \<or> c = 8239 \<or> c = 8287 \<or> c = 12288"

text \<open>The classes \<^verbatim>\<open>[A-Za-z_]\<close> and \<^verbatim>\<open>[A-Za-z0-9_-]\<close>.\<close>

definition is_name_start :: "codepoint \<Rightarrow> bool" where
  "is_name_start c \<longleftrightarrow> (65 \<le> c \<and> c \<le> 90) \<or> (97 \<le> c \<and> c \<le> 122) \<or> c = 95"

definition is_name_char :: "codepoint \<Rightarrow> bool" where
  "is_name_char c \<longleftrightarrow> is_name_start c \<or> (48 \<le> c \<and> c \<le> 57) \<or> c = 45"

text \<open>
  Every matcher below takes the text from the current position on and returns what it
  consumed together with the text that is left, or \<open>None\<close> when it does not match here.

  \<^verbatim>\<open><[^>]+>\<close>: a \<^verbatim>\<open><\<close> (60), one or more code points other than \<^verbatim>\<open>>\<close> (62), a
  \<^verbatim>\<open>>\<close>. The greedy class stops at the first \<^verbatim>\<open>>\<close>, and giving characters back cannot
  help, since the character after a shorter run is not a \<^verbatim>\<open>>\<close>.
\<close>

definition match_tag :: "pystr \<Rightarrow> (pystr \<times> pystr) option" where
  "match_tag s =
     (case s of
        [] \<Rightarrow> None
      | c # cs \<Rightarrow>
          if c \<noteq> 60 then None
          else (case dropWhile (\<lambda>x. x \<noteq> 62) cs of
                  [] \<Rightarrow> None
                | g # rest \<Rightarrow>
                    if takeWhile (\<lambda>x. x \<noteq> 62) cs = [] then None
                    else Some (c # takeWhile (\<lambda>x. x \<noteq> 62) cs @ [g], rest)))"

lemma match_tag_append: "match_tag s = Some (t, r) \<Longrightarrow> s = t @ r"
  by (auto simp: match_tag_def split: list.splits if_splits)
     (metis takeWhile_dropWhile_id)

lemma match_tag_shorter: "match_tag s = Some (t, r) \<Longrightarrow> length r < length s"
  by (auto simp: match_tag_def split: list.splits if_splits dest!: match_tag_append)
     (metis length_dropWhile_le length_Cons le_imp_less_Suc Suc_lessD)

text \<open>
  \<^verbatim>\<open>(?:<[^>]+>|\s)*\<close>: the greedy run of tags and single white-space characters. What
  follows the run in both patterns is a delimiter, which is neither a \<^verbatim>\<open><\<close> nor white
  space, so a shorter run never lets the rest of the pattern match and the longest run
  is the only one to consider.
\<close>

function match_noise :: "pystr \<Rightarrow> pystr \<times> pystr" where
  "match_noise [] = ([], [])"
| "match_noise (c # cs) =
     (case match_tag (c # cs) of
        Some (t, r) \<Rightarrow> (case match_noise r of (n, r') \<Rightarrow> (t @ n, r'))
      | None \<Rightarrow>
          if is_space c then (case match_noise cs of (n, r') \<Rightarrow> (c # n, r'))
          else ([], c # cs))"
  by pat_completeness auto
termination
  by (relation "measure length") (auto dest: match_tag_shorter)

lemma match_noise_append: "match_noise s = (n, r) \<Longrightarrow> s = n @ r"
proof (induction s arbitrary: n r rule: match_noise.induct)
  case 1
  then show ?case by simp
next
  case (2 c cs)
  then show ?case
    by (auto split: option.splits prod.splits if_splits dest: match_tag_append)
qed

text \<open>
  \<^verbatim>\<open>\{(?:<[^>]+>|\s)*\{\<close> and \<^verbatim>\<open>\}(?:<[^>]+>|\s)*\}\<close> (and the same with square brackets):
  the delimiter \<open>d\<close>, the noise, the delimiter again.
\<close>

definition match_pair :: "codepoint \<Rightarrow> pystr \<Rightarrow> (pystr \<times> pystr) option" where
  "match_pair d s =
     (case s of
        [] \<Rightarrow> None
      | c # cs \<Rightarrow>
          if c \<noteq> d then None
          else (case match_noise cs of
                  (n, r) \<Rightarrow>
                    (case r of
                       [] \<Rightarrow> None
                     | e # r' \<Rightarrow> if e = d then Some (c # n @ [e], r') else None)))"

lemma match_pair_append: "match_pair d s = Some (k, r) \<Longrightarrow> s = k @ r"
  by (auto simp: match_pair_def split: list.splits if_splits prod.splits
           dest: match_noise_append)

text \<open>
  \<^verbatim>\<open>(.*?)\<close> followed by the closing pair, under \<^verbatim>\<open>re.DOTALL\<close>: the lazy group grows
  one code point (any code point) at a time until the closing pair matches; the result
  is the group, the closing pair and the rest.
\<close>

fun match_lazy :: "codepoint \<Rightarrow> pystr \<Rightarrow> (pystr \<times> pystr \<times> pystr) option" where
  "match_lazy d [] = None"
| "match_lazy d (c # cs) =
     (case match_pair d (c # cs) of
        Some (k, r) \<Rightarrow> Some ([], k, r)
      | None \<Rightarrow>
          (case match_lazy d cs of
             Some (inner, k, r) \<Rightarrow> Some (c # inner, k, r)
           | None \<Rightarrow> None))"

lemma match_lazy_append: "match_lazy d s = Some (inner, k, r) \<Longrightarrow> s = inner @ k @ r"
  by (induction s arbitrary: inner k r)
     (auto split: option.splits dest: match_pair_append)

text \<open>
  The whole pattern at the current position, \<^verbatim>\<open>pattern_curly\<close> for \<open>op = {\<close>, \<open>cl = }\<close>
  and \<^verbatim>\<open>pattern_square\<close> for the square brackets: the result is group 0 (the matched
  span), group 1 (the interior) and the text after the match.
\<close>

definition match_pattern ::
  "codepoint \<Rightarrow> codepoint \<Rightarrow> pystr \<Rightarrow> (pystr \<times> pystr \<times> pystr) option" where
  "match_pattern op cl s =
     (case match_pair op s of
        None \<Rightarrow> None
      | Some (opener, r1) \<Rightarrow>
          (case match_lazy cl r1 of
             None \<Rightarrow> None
           | Some (inner, closer, r2) \<Rightarrow> Some (opener @ inner @ closer, inner, r2)))"

lemma match_pattern_append:
  assumes "match_pattern op cl s = Some (g0, g1, r)"
  shows "s = g0 @ r"
proof -
  from assms obtain opener r1 closer where
    p: "match_pair op s = Some (opener, r1)" and
    l: "match_lazy cl r1 = Some (g1, closer, r)" and
    g: "g0 = opener @ g1 @ closer"
    by (auto simp: match_pattern_def split: option.splits)
  from p have "s = opener @ r1" by (rule match_pair_append)
  moreover from l have "r1 = g1 @ closer @ r" by (rule match_lazy_append)
  ultimately show ?thesis using g by simp
qed

lemma match_pair_nonempty: "match_pair d s = Some (k, r) \<Longrightarrow> k \<noteq> []"
  by (auto simp: match_pair_def split: list.splits if_splits prod.splits)

lemma match_pattern_nonempty: "match_pattern op cl s = Some (g0, g1, r) \<Longrightarrow> g0 \<noteq> []"
  by (auto simp: match_pattern_def split: option.splits dest: match_pair_nonempty)

lemma match_pattern_shorter:
  "match_pattern op cl s = Some (g0, g1, r) \<Longrightarrow> length r < length s"
  using match_pattern_append [of op cl s g0 g1 r] match_pattern_nonempty [of op cl s g0 g1 r]
  by auto

subsection \<open>The replacement function\<close>

text \<open>\<^verbatim>\<open>re.sub(r"<[^>]+>", "", inner)\<close>: every tag is removed, left to right.\<close>

function strip_tags :: "pystr \<Rightarrow> pystr" where
  "strip_tags [] = []"
| "strip_tags (c # cs) =
     (case match_tag (c # cs) of
        Some (t, r) \<Rightarrow> strip_tags r
      | None \<Rightarrow> c # strip_tags cs)"
  by pat_completeness auto
termination
  by (relation "measure length") (auto dest: match_tag_shorter)

text \<open>
  \<^verbatim>\<open>s.replace(old, new)\<close>: the occurrences of \<open>old\<close> are replaced left to right
  without overlap; with an empty \<open>old\<close> Python puts \<open>new\<close> around every character.
\<close>

function py_replace :: "pystr \<Rightarrow> pystr \<Rightarrow> pystr \<Rightarrow> pystr" where
  "py_replace old new [] = (if old = [] then new else [])"
| "py_replace old new (c # cs) =
     (if old = [] then new @ c # py_replace old new cs
      else if take (length old) (c # cs) = old
           then new @ py_replace old new (drop (length old) (c # cs))
           else c # py_replace old new cs)"
  by pat_completeness auto
termination
  by (relation "measure (\<lambda>(old, new, s). length s)") auto

text \<open>
  The cleaning of the interior: tags removed, the three entities decoded in the
  source's order, every white-space character removed (\<^verbatim>\<open>re.sub(r"\s+", "", ...)\<close>).
\<close>

definition clean_inner :: "pystr \<Rightarrow> pystr" where
  "clean_inner inner =
     filter (\<lambda>c. \<not> is_space c)
       (py_replace (str ''&amp;'') (str ''&'')
         (py_replace (str ''&gt;'') (str ''>'')
           (py_replace (str ''&lt;'') (str ''<'') (strip_tags inner))))"

text \<open>
  \<^verbatim>\<open>re.match(r"^([A-Za-z_][A-Za-z0-9_-]*)$", cleaned)\<close>. Without \<^verbatim>\<open>re.MULTILINE\<close> the
  \<^verbatim>\<open>$\<close> matches at the end of the string and also just before a newline (10) that ends
  the string. The result is group 1.
\<close>

definition match_name :: "pystr \<Rightarrow> pystr option" where
  "match_name s =
     (case s of
        [] \<Rightarrow> None
      | c # cs \<Rightarrow>
          if \<not> is_name_start c then None
          else if dropWhile is_name_char cs = [] \<or> dropWhile is_name_char cs = [10]
               then Some (c # takeWhile is_name_char cs)
               else None)"

text \<open>
  \<^verbatim>\<open>repl_curly\<close> and \<^verbatim>\<open>repl_square\<close>, from group 0 and group 1 of the match: the matched
  span itself when the cleaned interior is no name, the contiguous tag otherwise.
\<close>

definition repl :: "codepoint \<Rightarrow> codepoint \<Rightarrow> pystr \<Rightarrow> pystr \<Rightarrow> pystr" where
  "repl op cl g0 g1 =
     (case match_name (clean_inner g1) of
        None \<Rightarrow> g0
      | Some var \<Rightarrow> [op, op] @ var @ [cl, cl])"

subsection \<open>Substitution with a count\<close>

text \<open>
  \<^verbatim>\<open>pattern.subn(repl, text)\<close>: the text is scanned left to right; where the pattern
  matches, the value of \<open>repl\<close> takes the place of the match, the count goes up by one
  and the scan goes on after the match; elsewhere the character is copied. The
  count of \<^verbatim>\<open>subn\<close> is the number of matches: it does not look at what \<open>repl\<close> returned.
  The patterns here never match the empty string.
\<close>

function subn :: "codepoint \<Rightarrow> codepoint \<Rightarrow> pystr \<Rightarrow> pystr \<times> nat" where
  "subn op cl [] = ([], 0)"
| "subn op cl (c # cs) =
     (case match_pattern op cl (c # cs) of
        Some (g0, g1, rest) \<Rightarrow>
          (case subn op cl rest of (t, n) \<Rightarrow> (repl op cl g0 g1 @ t, Suc n))
      | None \<Rightarrow> (case subn op cl cs of (t, n) \<Rightarrow> (c # t, n)))"
  by pat_completeness auto
termination
  by (relation "measure (\<lambda>(op, cl, s). length s)") (auto dest: match_pattern_shorter)

text \<open>The two reconstructors of the source: curly braces are 123 and 125, square
  brackets 91 and 93.\<close>

definition normalize_jinja_curly :: "pystr \<Rightarrow> pystr \<times> nat" where
  "normalize_jinja_curly xml_text = subn 123 125 xml_text"

definition normalize_jinja_square :: "pystr \<Rightarrow> pystr \<times> nat" where
  "normalize_jinja_square xml_text = subn 91 93 xml_text"

lemmas text_eval =
  str_def is_space_def is_name_start_def is_name_char_def match_tag_def match_pair_def
  match_pattern_def clean_inner_def match_name_def repl_def
  normalize_jinja_curly_def normalize_jinja_square_def


section \<open>The scan for contiguous tags\<close>

text \<open>
  \<^verbatim>\<open>\{\{\s*([A-Za-z_][A-Za-z0-9_-]*)\s*\}\}\<close>, the pattern of \<^verbatim>\<open>_detect_tags\<close>, at the
  current position: two opening braces, white space, a name, white space, two closing
  braces. All three runs are greedy, and none can give a character back to what
  follows it: white space is neither the start of a name nor a brace, and a name
  character is neither white space nor a brace. The result is group 1 and the text
  after the match.
\<close>

definition match_placeholder :: "pystr \<Rightarrow> (pystr \<times> pystr) option" where
  "match_placeholder s =
     (case s of
        a # b # r0 \<Rightarrow>
          if a \<noteq> 123 \<or> b \<noteq> 123 then None
          else (case dropWhile is_space r0 of
                  [] \<Rightarrow> None
                | c # cs \<Rightarrow>
                    if \<not> is_name_start c then None
                    else (case dropWhile is_space (dropWhile is_name_char cs) of
                            x # y # rest \<Rightarrow>
                              if x = 125 \<and> y = 125
                              then Some (c # takeWhile is_name_char cs, rest)
                              else None
                          | _ \<Rightarrow> None))
      | _ \<Rightarrow> None)"

text \<open>What a match of the pattern looks like.\<close>

lemma match_placeholder_shape:
  assumes "match_placeholder s = Some (var, r)"
  shows "\<exists>ws1 ws2. s = [123, 123] @ ws1 @ var @ ws2 @ [125, 125] @ r \<and>
           (\<forall>c \<in> set ws1. is_space c) \<and> (\<forall>c \<in> set ws2. is_space c) \<and>
           var \<noteq> [] \<and> is_name_start (hd var) \<and> (\<forall>c \<in> set var. is_name_char c)"
proof -
  from assms obtain r0 where s: "s = 123 # 123 # r0"
    by (auto simp: match_placeholder_def split: list.splits if_splits)
  from assms s obtain c cs where d1: "dropWhile is_space r0 = c # cs" and c: "is_name_start c"
    by (auto simp: match_placeholder_def split: list.splits if_splits)
  from assms s d1 c have d2: "dropWhile is_space (dropWhile is_name_char cs) = 125 # 125 # r"
    and var: "var = c # takeWhile is_name_char cs"
    by (auto simp: match_placeholder_def split: list.splits if_splits)
  let ?ws1 = "takeWhile is_space r0"
  let ?ws2 = "takeWhile is_space (dropWhile is_name_char cs)"
  have "r0 = ?ws1 @ c # cs"
    using d1 takeWhile_dropWhile_id [of is_space r0] by simp
  moreover have "cs = takeWhile is_name_char cs @ dropWhile is_name_char cs"
    by simp
  moreover have "dropWhile is_name_char cs = ?ws2 @ 125 # 125 # r"
    using d2 takeWhile_dropWhile_id [of is_space "dropWhile is_name_char cs"] by simp
  ultimately have "s = [123, 123] @ ?ws1 @ var @ ?ws2 @ [125, 125] @ r"
    using s var by simp
  moreover have "\<forall>c \<in> set ?ws1. is_space c" "\<forall>c \<in> set ?ws2. is_space c"
    by (auto dest: set_takeWhileD)
  moreover have "var \<noteq> []" "is_name_start (hd var)" "\<forall>c \<in> set var. is_name_char c"
    using var c by (auto simp: is_name_char_def dest: set_takeWhileD)
  ultimately show ?thesis by blast
qed

lemma match_placeholder_shorter:
  "match_placeholder s = Some (var, r) \<Longrightarrow> length r < length s"
  by (drule match_placeholder_shape) auto

text \<open>
  \<^verbatim>\<open>re.finditer\<close> with that pattern, as the list of the group 1 of each match: the
  matches are found left to right and do not overlap.
\<close>

function finditer :: "pystr \<Rightarrow> pystr list" where
  "finditer [] = []"
| "finditer (c # cs) =
     (case match_placeholder (c # cs) of
        Some (var, rest) \<Rightarrow> var # finditer rest
      | None \<Rightarrow> finditer cs)"
  by pat_completeness auto
termination
  by (relation "measure length") (auto dest: match_placeholder_shorter)

text \<open>
  The body of the inner loop of \<^verbatim>\<open>_detect_tags\<close>, over the matches of one entry: the
  state is the list \<open>found\<close> and the set \<open>seen\<close>.
\<close>

fun collect :: "pystr list \<Rightarrow> pystr list \<times> pystr set \<Rightarrow> pystr list \<times> pystr set" where
  "collect [] st = st"
| "collect (var # vars) (found, seen) =
     (if var \<notin> seen then collect vars (found @ [var], insert var seen)
      else collect vars (found, seen))"


section \<open>UTF-8\<close>

text \<open>
  \<^verbatim>\<open>data.decode('utf-8', 'ignore')\<close> never raises: where the bytes are not a well-formed
  sequence, the error handler drops the offending bytes and decoding goes on after them.
  \<open>decode_step\<close> looks at the byte at the current position and those after it and returns the code
  point to emit, if any, and the number of bytes to pass over, as CPython's decoder
  does: an invalid start byte is dropped alone, a sequence cut short by a byte that
  cannot continue it is dropped up to that byte, a sequence cut short by the end of the
  data is dropped whole. Overlong forms, surrogates and values above U+10FFFF are
  rejected at their second byte.
\<close>

type_synonym bytes = "8 word list"

definition ascii :: "string \<Rightarrow> bytes" where
  "ascii s = map of_char s"

definition is_cont :: "nat \<Rightarrow> bool" where
  "is_cont b \<longleftrightarrow> 128 \<le> b \<and> b < 192"

definition decode_step :: "nat \<Rightarrow> nat list \<Rightarrow> codepoint option \<times> nat" where
  "decode_step b0 bs =
     (if b0 < 128 then (Some b0, 1)
      else if b0 < 194 then (None, 1)
      else if b0 < 224 then
        (case bs of
           [] \<Rightarrow> (None, 1)
         | b1 # _ \<Rightarrow>
             if is_cont b1 then (Some ((b0 - 192) * 64 + (b1 - 128)), 2) else (None, 1))
      else if b0 < 240 then
        (case bs of
           [] \<Rightarrow> (None, 1)
         | b1 # bs1 \<Rightarrow>
             if \<not> is_cont b1 \<or> (if b1 < 160 then b0 = 224 else b0 = 237) then (None, 1)
             else (case bs1 of
                     [] \<Rightarrow> (None, 2)
                   | b2 # _ \<Rightarrow>
                       if is_cont b2
                       then (Some ((b0 - 224) * 4096 + (b1 - 128) * 64 + (b2 - 128)), 3)
                       else (None, 2)))
      else if b0 < 245 then
        (case bs of
           [] \<Rightarrow> (None, 1)
         | b1 # bs1 \<Rightarrow>
             if \<not> is_cont b1 \<or> (if b1 < 144 then b0 = 240 else b0 = 244) then (None, 1)
             else (case bs1 of
                     [] \<Rightarrow> (None, 2)
                   | b2 # bs2 \<Rightarrow>
                       if \<not> is_cont b2 then (None, 2)
                       else (case bs2 of
                               [] \<Rightarrow> (None, 3)
                             | b3 # _ \<Rightarrow>
                                 if is_cont b3
                                 then (Some ((b0 - 240) * 262144 + (b1 - 128) * 4096 +
                                             (b2 - 128) * 64 + (b3 - 128)), 4)
                                 else (None, 3))))
      else (None, 1))"

function decode_ignore :: "nat list \<Rightarrow> pystr" where
  "decode_ignore [] = []"
| "decode_ignore (b # bs) =
     (case decode_step b bs of
        (Some c, n) \<Rightarrow> c # decode_ignore (drop (n - 1) bs)
      | (None, n) \<Rightarrow> decode_ignore (drop (n - 1) bs))"
  by pat_completeness auto
termination
  by (relation "measure length") auto

definition utf8_decode_ignore :: "bytes \<Rightarrow> pystr" where
  "utf8_decode_ignore data = decode_ignore (map unat data)"

text \<open>
  \<^verbatim>\<open>text.encode('utf-8')\<close> is strict: a surrogate (U+D800 to U+DFFF) raises
  \<^verbatim>\<open>UnicodeEncodeError\<close>, here \<open>None\<close>; so does a number that is no code point.
\<close>

definition encode_codepoint :: "codepoint \<Rightarrow> nat list option" where
  "encode_codepoint c =
     (if c < 128 then Some [c]
      else if c < 2048 then Some [192 + c div 64, 128 + c mod 64]
      else if c < 65536 then
        (if 55296 \<le> c \<and> c < 57344 then None
         else Some [224 + c div 4096, 128 + c div 64 mod 64, 128 + c mod 64])
      else if c < 1114112 then
        Some [240 + c div 262144, 128 + c div 4096 mod 64, 128 + c div 64 mod 64,
              128 + c mod 64]
      else None)"

fun utf8_encode :: "pystr \<Rightarrow> bytes option" where
  "utf8_encode [] = Some []"
| "utf8_encode (c # cs) =
     (case encode_codepoint c of
        None \<Rightarrow> None
      | Some bs \<Rightarrow>
          (case utf8_encode cs of
             None \<Rightarrow> None
           | Some rest \<Rightarrow> Some (map of_nat bs @ rest)))"


section \<open>Archives and the file system\<close>

text \<open>
  A \<^verbatim>\<open>ZipInfo\<close> is the name of an entry and its other metadata (date, compression
  method, attributes, comment), which the code never looks at and which stays abstract.
  The sizes, the checksum and the offset, which \<^verbatim>\<open>writestr\<close> recomputes from the data
  it is given, are not modelled. An
  archive is the list of its members in directory order, each with what reading it
  gives: its decompressed bytes, or the exception that \<^verbatim>\<open>read\<close> raises for it
  (\<^verbatim>\<open>BadZipFile\<close> for a bad checksum or a damaged header, \<^verbatim>\<open>RuntimeError\<close> for an
  encrypted member, \<^verbatim>\<open>NotImplementedError\<close> for an unsupported compression).
\<close>

datatype pyerror =
  FileNotFoundError | BadZipFile | KeyError | RuntimeError | NotImplementedError

record 'm zipinfo =
  filename :: pystr
  meta :: 'm

datatype payload = Stored bytes | Unreadable pyerror

type_synonym 'm archive = "('m zipinfo \<times> payload) list"

text \<open>
  A file is a zip archive or something else; the file system maps the paths that exist
  to files. A path stands for the file it names: two spellings of one path are one key
  of the map, so that two different keys are two different files.
\<close>

datatype 'm fobj = Archive "'m archive" | Other bytes

type_synonym 'm fs = "pystr \<Rightarrow> 'm fobj option"

text \<open>
  \<^verbatim>\<open>ZipFile.infolist()\<close> is the list of the entries in directory order.
  \<^verbatim>\<open>ZipFile.read(name)\<close> takes a name: it looks the name up in the dictionary
  \<^verbatim>\<open>NameToInfo\<close>, which the constructor fills entry by entry in directory order, so that
  of several entries with one name the last one is found, and reads that member.
  When the file has been truncated since the archive was opened (\<open>truncated\<close>), the
  member's header cannot be read any more and \<^verbatim>\<open>read\<close> raises \<^verbatim>\<open>BadZipFile\<close>.
\<close>

definition infolist :: "'m archive \<Rightarrow> 'm zipinfo list" where
  "infolist z = map fst z"

definition NameToInfo :: "'m archive \<Rightarrow> pystr \<Rightarrow> ('m zipinfo \<times> payload) option" where
  "NameToInfo z = fold (\<lambda>m d. d(filename (fst m) \<mapsto> m)) z Map.empty"

definition zread :: "bool \<Rightarrow> 'm archive \<Rightarrow> pystr \<Rightarrow> pyerror + bytes" where
  "zread truncated z name =
     (case NameToInfo z name of
        None \<Rightarrow> Inl KeyError
      | Some m \<Rightarrow>
          if truncated then Inl BadZipFile
          else (case snd m of Stored data \<Rightarrow> Inr data | Unreadable e \<Rightarrow> Inl e))"

text \<open>
  \<^verbatim>\<open>item.filename.startswith('word/') and item.filename.endswith('.xml')\<close>
\<close>

definition qualifying :: "pystr \<Rightarrow> bool" where
  "qualifying name \<longleftrightarrow> prefix (str ''word/'') name \<and> suffix (str ''.xml'') name"

subsection \<open>The rewrite pass\<close>

text \<open>
  The \<^verbatim>\<open>try\<close> block of \<^verbatim>\<open>normalize_docx\<close> for one qualifying entry, from the entry's
  bytes and the running \<^verbatim>\<open>total\<close> (here \<open>tot\<close>) to the bytes to write and the new total. The only
  statement of the block that can raise is the last one, \<^verbatim>\<open>text.encode('utf-8')\<close>;
  the handler then leaves \<open>data\<close> as it was read, and the total keeps what was added.
\<close>

definition normalize_entry :: "bool \<Rightarrow> bytes \<Rightarrow> nat \<Rightarrow> bytes \<times> nat" where
  "normalize_entry enable_square data tot =
     (case normalize_jinja_curly (utf8_decode_ignore data) of
        (text1, n1) \<Rightarrow>
          (case (if enable_square
                 then (case normalize_jinja_square text1 of
                         (text2, n2) \<Rightarrow> (text2, tot + n1 + n2))
                 else (text1, tot + n1)) of
             (text3, tot') \<Rightarrow>
               (case utf8_encode text3 of
                  Some encoded \<Rightarrow> (encoded, tot')
                | None \<Rightarrow> (data, tot'))))"

text \<open>
  The \<^verbatim>\<open>for\<close> loop of \<^verbatim>\<open>normalize_docx\<close> over \<^verbatim>\<open>zin.infolist()\<close>: \<open>rd\<close> is
  \<^verbatim>\<open>zin.read\<close>, \<open>zout\<close> the members written so far, \<open>tot\<close> the running \<^verbatim>\<open>total\<close>. A
  failing read is not caught: the loop ends there, with what has been written.
  \<^verbatim>\<open>zout.writestr(item, data)\<close> appends a member with the \<^verbatim>\<open>ZipInfo\<close> of the source
  entry and the given bytes.
\<close>

fun rewrite_entries ::
  "bool \<Rightarrow> (pystr \<Rightarrow> pyerror + bytes) \<Rightarrow> 'm zipinfo list \<Rightarrow> 'm archive \<Rightarrow> nat \<Rightarrow>
   'm archive \<times> (pyerror + nat)" where
  "rewrite_entries enable_square rd [] zout tot = (zout, Inr tot)"
| "rewrite_entries enable_square rd (item # items) zout tot =
     (case rd (filename item) of
        Inl e \<Rightarrow> (zout, Inl e)
      | Inr data \<Rightarrow>
          (case (if qualifying (filename item)
                 then normalize_entry enable_square data tot
                 else (data, tot)) of
             (data', tot') \<Rightarrow>
               rewrite_entries enable_square rd items (zout @ [(item, Stored data')]) tot'))"

text \<open>
  \<^verbatim>\<open>normalize_docx\<close>, from the file system before the call to the file system after it
  and the returned total or the exception raised. The existence check comes first;
  then the source is opened (\<^verbatim>\<open>BadZipFile\<close> when it is no archive), then the
  destination is opened for writing, which creates or truncates it; the loop runs; on
  leaving the \<^verbatim>\<open>with\<close> block, by the end of the loop or by an exception, the
  destination is closed and holds the members written so far. Opening and writing the
  destination are taken to succeed. The source has been truncated when the destination
  is the same file.
\<close>

definition normalize_docx ::
  "'m fs \<Rightarrow> pystr \<Rightarrow> pystr \<Rightarrow> bool \<Rightarrow> 'm fs \<times> (pyerror + nat)" where
  "normalize_docx fs input_path output_path enable_square =
     (case fs input_path of
        None \<Rightarrow> (fs, Inl FileNotFoundError)
      | Some (Other content) \<Rightarrow> (fs, Inl BadZipFile)
      | Some (Archive zin) \<Rightarrow>
          (case rewrite_entries enable_square (zread (output_path = input_path) zin)
                  (infolist zin) [] 0 of
             (zout, result) \<Rightarrow> (fs(output_path \<mapsto> Archive zout), result)))"

subsection \<open>The tag census\<close>

text \<open>
  The loop of \<^verbatim>\<open>_detect_tags\<close> over \<^verbatim>\<open>z.infolist()\<close>: only qualifying entries are read;
  a failing read ends the loop with the exception.
\<close>

fun scan_entries ::
  "(pystr \<Rightarrow> pyerror + bytes) \<Rightarrow> 'm zipinfo list \<Rightarrow> pystr list \<times> pystr set \<Rightarrow>
   pyerror + pystr list \<times> pystr set" where
  "scan_entries rd [] st = Inr st"
| "scan_entries rd (item # items) st =
     (if qualifying (filename item)
      then (case rd (filename item) of
              Inl e \<Rightarrow> Inl e
            | Inr data \<Rightarrow>
                scan_entries rd items (collect (finditer (utf8_decode_ignore data)) st))
      else scan_entries rd items st)"

text \<open>The body of the \<^verbatim>\<open>try\<close> block of \<^verbatim>\<open>_detect_tags\<close>: the list \<open>found\<close>, or the
  exception raised.\<close>

definition detect_tags_body :: "'m fs \<Rightarrow> pystr \<Rightarrow> pyerror + pystr list" where
  "detect_tags_body fs docx_path =
     (case fs docx_path of
        None \<Rightarrow> Inl FileNotFoundError
      | Some (Other content) \<Rightarrow> Inl BadZipFile
      | Some (Archive z) \<Rightarrow>
          (case scan_entries (zread False z) (infolist z) ([], {}) of
             Inl e \<Rightarrow> Inl e
           | Inr (found, seen) \<Rightarrow> Inr found))"

text \<open>
  \<^verbatim>\<open>_detect_tags\<close>: the \<^verbatim>\<open>except Exception\<close> clause around the whole body logs a
  warning and returns the empty list. The result is what the caller gets, a returned
  list or an exception, together with the warnings logged.
\<close>

definition detect_tags :: "'m fs \<Rightarrow> pystr \<Rightarrow> (pyerror + pystr list) \<times> pyerror list" where
  "detect_tags fs docx_path =
     (case detect_tags_body fs docx_path of
        Inr found \<Rightarrow> (Inr found, [])
      | Inl e \<Rightarrow> (Inr [], [e]))"

lemmas container_eval =
  ascii_def is_cont_def decode_step_def utf8_decode_ignore_def encode_codepoint_def
  infolist_def NameToInfo_def zread_def qualifying_def suffix_to_prefix
  normalize_entry_def normalize_docx_def detect_tags_body_def detect_tags_def
  match_placeholder_def


section \<open>Notions of the specification\<close>

text \<open>
  An inline markup tag: a text that the tag pattern of the source matches as a whole.
\<close>

definition inline_tag :: "pystr \<Rightarrow> bool" where
  "inline_tag t \<longleftrightarrow> match_tag t = Some (t, [])"

text \<open>
  A closing pair starts inside \<open>inner\<close>, a text followed by \<open>after\<close>: from some
  position of \<open>inner\<close> on, the text begins with a closing brace, white space and tags
  (possibly none) and another closing brace.
\<close>

fun closes_inside :: "pystr \<Rightarrow> pystr \<Rightarrow> bool" where
  "closes_inside [] after = False"
| "closes_inside (c # cs) after =
     (match_pair 125 (c # cs @ after) \<noteq> None \<or> closes_inside cs after)"



text \<open>First-seen order without duplicates: of each element the first occurrence stays.\<close>

definition first_seen :: "'a list \<Rightarrow> 'a list" where
  "first_seen xs = rev (remdups (rev xs))"

text \<open>
  The names of the placeholders in the text of a member, in match order: the matches
  in the member's own bytes (none when the member cannot be read).
\<close>

definition entry_names :: "'m zipinfo \<times> payload \<Rightarrow> pystr list" where
  "entry_names m =
     (case snd m of
        Stored data \<Rightarrow> finditer (utf8_decode_ignore data)
      | Unreadable e \<Rightarrow> [])"

text \<open>
  The census that the specification describes: the placeholder names of the qualifying
  members, member by member in directory order, in first-seen order without duplicates.
\<close>

definition census :: "'m archive \<Rightarrow> pystr list" where
  "census z = first_seen (concat (map entry_names (filter (\<lambda>m. qualifying (filename (fst m))) z)))"

subsection \<open>Example archives\<close>

text \<open>
  Two qualifying entries: the first starts with the byte 0xFF, which is no UTF-8, and
  goes on with a fragmented placeholder; the second is a fragmented placeholder in
  valid UTF-8.
\<close>

definition ex_fault :: "nat archive" where
  "ex_fault =
     [(\<lparr>filename = str ''word/header1.xml'', meta = 1\<rparr>, Stored (255 # ascii ''{ {a}}'')),
      (\<lparr>filename = str ''word/document.xml'', meta = 2\<rparr>,
       Stored (ascii ''{<w:t>{</w:t>name<w:t>}</w:t>}''))]"

text \<open>Two entries with one name, neither qualifying, with different content.\<close>

definition ex_duplicate :: "nat archive" where
  "ex_duplicate =
     [(\<lparr>filename = str ''media/logo.bin'', meta = 1\<rparr>, Stored [1, 2, 3]),
      (\<lparr>filename = str ''media/logo.bin'', meta = 2\<rparr>, Stored [4, 5])]"

text \<open>A document with the placeholders a, b, a, and a part that does not qualify.\<close>

definition ex_census :: "nat archive" where
  "ex_census =
     [(\<lparr>filename = str ''docProps/app.xml'', meta = 1\<rparr>, Stored (ascii ''{{z}}'')),
      (\<lparr>filename = str ''word/document.xml'', meta = 2\<rparr>,
       Stored (ascii ''<w:t>{{a}}</w:t><w:t>{{b}}</w:t><w:t>{{a}}</w:t>''))]"

text \<open>A document whose placeholder has blanks inside the braces.\<close>

definition ex_spaced :: "nat archive" where
  "ex_spaced =
     [(\<lparr>filename = str ''word/document.xml'', meta = 1\<rparr>, Stored (ascii ''{{ name }}''))]"

text \<open>A document whose only part is encrypted and cannot be read.\<close>

definition ex_damaged :: "nat archive" where
  "ex_damaged =
     [(\<lparr>filename = str ''word/document.xml'', meta = 1\<rparr>, Unreadable RuntimeError)]"

text \<open>Two qualifying entries with one name: p, q in the first and q, p in the second.\<close>

definition ex_repeat :: "nat archive" where
  "ex_repeat =
     [(\<lparr>filename = str ''word/document.xml'', meta = 1\<rparr>, Stored (ascii ''{{p}}{{q}}'')),
      (\<lparr>filename = str ''word/document.xml'', meta = 2\<rparr>, Stored (ascii ''{{q}}{{p}}''))]"


section \<open>Properties of the reconstructor\<close>

lemma subn_zero_unchanged: "snd (subn op cl s) = 0 \<Longrightarrow> fst (subn op cl s) = s"
proof (induction op cl s rule: subn.induct)
  case (1 op cl)
  then show ?case by simp
next
  case (2 op cl c cs)
  show ?case
  proof (cases "match_pattern op cl (c # cs)")
    case None
    with 2 show ?thesis by (simp split: prod.splits)
  next
    case (Some m)
    with "2.prems" show ?thesis by (simp split: prod.splits)
  qed
qed

subsection \<open>Tags and noise in front of other text\<close>

lemma match_tag_full:
  assumes "match_tag t = Some (t, [])"
  shows "match_tag (t @ s) = Some (t, s)"
proof -
  from assms obtain cs where t: "t = 60 # cs"
    by (auto simp: match_tag_def split: list.splits if_splits)
  let ?P = "\<lambda>x::nat. x \<noteq> 62"
  from assms t obtain g where d: "dropWhile ?P cs = [g]" and ne: "takeWhile ?P cs \<noteq> []"
    by (auto simp: match_tag_def split: list.splits if_splits)
  have cs: "cs = takeWhile ?P cs @ [g]"
    using d takeWhile_dropWhile_id [of ?P cs] by simp
  have g: "g = 62" using d hd_dropWhile [of ?P cs] by auto
  have gin: "g \<in> set cs" by (subst cs) simp
  have tw: "takeWhile ?P (cs @ s) = takeWhile ?P cs"
    using gin g by (intro takeWhile_append1) auto
  have "dropWhile ?P (cs @ s) = dropWhile ?P cs @ s"
    using gin g by (intro dropWhile_append1) auto
  then have dw: "dropWhile ?P (cs @ s) = g # s" using d by simp
  show ?thesis using t tw dw ne cs by (simp add: match_tag_def)
qed

lemma match_noise_tag:
  "match_tag t = Some (t, []) \<Longrightarrow>
   match_noise (t @ s) = (case match_noise s of (n, r) \<Rightarrow> (t @ n, r))"
  using match_tag_full [of t s] by (cases t) (auto simp: match_tag_def)

lemma match_noise_stop:
  "c \<noteq> 60 \<Longrightarrow> \<not> is_space c \<Longrightarrow> match_noise (c # cs) = ([], c # cs)"
  by (simp add: match_tag_def)



lemma strip_tags_tag: "match_tag t = Some (t, []) \<Longrightarrow> strip_tags (t @ s) = strip_tags s"
  using match_tag_full [of t s] by (cases t) (auto simp: match_tag_def)

lemma strip_tags_plain: "60 \<notin> set pre \<Longrightarrow> strip_tags (pre @ s) = pre @ strip_tags s"
  by (induction pre) (auto simp: match_tag_def)

text \<open>
  C1. The claim: the count returned by the reconstructor counts successful rewrites
  only, so that on \<^verbatim>\<open>{{1name}}\<close> the text is returned as it is with a count of 0. The
  source returns the count of \<^verbatim>\<open>subn\<close>, which counts every match of the pattern: on
  \<^verbatim>\<open>{{1name}}\<close> the text is unchanged and the count is 1.
\<close>

theorem C1_rejected_match_is_counted:
  "normalize_jinja_curly (str ''{{1name}}'') = (str ''{{1name}}'', 1)"
  by (simp add: text_eval)

text \<open>
  C10. For either family, a returned count of 0 means that the returned text is the
  input text.
\<close>

theorem C10_zero_count_text_unchanged:
  "(snd (normalize_jinja_curly t) = 0 \<longrightarrow> fst (normalize_jinja_curly t) = t) \<and>
   (snd (normalize_jinja_square t) = 0 \<longrightarrow> fst (normalize_jinja_square t) = t)"
  by (simp add: normalize_jinja_curly_def normalize_jinja_square_def subn_zero_unchanged)

theorem C10_zero_count_witness:
  "snd (normalize_jinja_curly (str ''a {b} [c]'')) = 0 \<and>
   fst (normalize_jinja_curly (str ''a {b} [c]'')) = str ''a {b} [c]'' \<and>
   snd (normalize_jinja_square (str ''a {b} [c]'')) = 0 \<and>
   fst (normalize_jinja_square (str ''a {b} [c]'')) = str ''a {b} [c]''"
  using C10_zero_count_text_unchanged [of "str ''a {b} [c]''"]
  by (simp add: text_eval)

section \<open>Running the reconstructor on its own output\<close>

lemma match_tag_not_lt: "c \<noteq> 60 \<Longrightarrow> match_tag (c # cs) = None"
  by (simp add: match_tag_def)

lemma match_tag_lt_None:
  "match_tag (60 # y) = None \<longleftrightarrow> 62 \<notin> set y \<or> (\<exists>y'. y = 62 # y')"
proof (cases "dropWhile (\<lambda>x. x \<noteq> 62) y")
  case Nil
  then have "62 \<notin> set y" by (auto simp: dropWhile_eq_Nil_conv)
  with Nil show ?thesis by (simp add: match_tag_def del: dropWhile_eq_Nil_conv)
next
  case (Cons g rest)
  then have "62 \<in> set y"
    using dropWhile_eq_Nil_conv [of "\<lambda>x. x \<noteq> 62" y] by auto
  moreover have "takeWhile (\<lambda>x. x \<noteq> 62) y = [] \<longleftrightarrow> (\<exists>y'. y = 62 # y')"
    using \<open>62 \<in> set y\<close> by (cases y) auto
  ultimately show ?thesis using Cons by (simp add: match_tag_def)
qed





lemma match_noise_stop':
  "\<not> is_space c \<Longrightarrow> match_tag (c # cs) = None \<Longrightarrow> match_noise (c # cs) = ([], c # cs)"
  by simp



























lemma subn_Some:
  "match_pattern op cl (c # cs) = Some (g0, g1, rest) \<Longrightarrow>
   fst (subn op cl (c # cs)) = repl op cl g0 g1 @ fst (subn op cl rest)"
  by (simp add: split_beta)







section \<open>The repair of a fragmented placeholder\<close>

lemma match_lazy_open:
  "\<not> closes_inside inner after \<Longrightarrow>
   match_lazy 125 (inner @ after) = map_option (\<lambda>(i, k, r). (inner @ i, k, r)) (match_lazy 125 after)"
  by (induction inner) (auto simp: option.map_id split: option.splits)

lemma opener_with_tag:
  assumes "inline_tag t1"
  shows "match_pair 123 (123 # t1 @ 123 # s) = Some (123 # t1 @ [123], s)"
  using assms
  by (simp add: match_pair_def inline_tag_def match_noise_tag match_noise_stop is_space_def
           del: match_noise.simps)

lemma closer_with_tag:
  assumes "inline_tag t4"
  shows "match_pair 125 (125 # t4 @ 125 # s) = Some (125 # t4 @ [125], s)"
  using assms
  by (simp add: match_pair_def inline_tag_def match_noise_tag match_noise_stop is_space_def
           del: match_noise.simps)

text \<open>
  C5, as claimed: for a text made of an opening brace, an inline markup tag, an
  opening brace, a tag, the word \<^verbatim>\<open>name\<close>, a tag, a closing brace, a tag and a closing
  brace, the curly reconstructor returns \<^verbatim>\<open>{{name}}\<close> and a count of 1. In the example
  the second tag holds two closing braces: the lazy interior of the pattern ends at
  them, inside the tag, the cleaned interior is no name and the text is returned as it
  is.
\<close>

theorem C5_closing_pair_in_tag:
  "inline_tag (str ''<w:t>'') \<and> inline_tag (str ''<a}}>'') \<and> inline_tag (str ''</w:t>'') \<and>
   normalize_jinja_curly (str ''{<w:t>{<a}}>name</w:t>}</w:t>}'')
     = (str ''{<w:t>{<a}}>name</w:t>}</w:t>}'', 1) \<and>
   str ''{<w:t>{<a}}>name</w:t>}</w:t>}'' \<noteq> str ''{{name}}''"
  by (simp add: text_eval inline_tag_def)

text \<open>
  C5, amended: for a text made of an opening brace, an inline markup tag, an opening
  brace, a tag, the word \<^verbatim>\<open>name\<close>, a tag, a closing brace, a tag and a closing brace,
  where no closing pair (a closing brace, white space and tags, a closing brace) starts
  inside the second tag, the word or the third tag, the curly reconstructor returns
  \<^verbatim>\<open>{{name}}\<close> and a count of 1. The tags may hold braces otherwise.
\<close>

theorem C5_fragmentation_repair:
  assumes "inline_tag t1" "inline_tag t2" "inline_tag t3" "inline_tag t4"
    and "\<not> closes_inside (t2 @ str ''name'' @ t3) (str ''}'' @ t4 @ str ''}'')"
  shows "normalize_jinja_curly
           (str ''{'' @ t1 @ str ''{'' @ t2 @ str ''name'' @ t3 @ str ''}'' @ t4 @ str ''}'')
         = (str ''{{name}}'', 1)"
proof -
  let ?inner = "t2 @ str ''name'' @ t3"
  let ?closer = "125 # t4 @ [125]"
  from assms(5) have o: "\<not> closes_inside ?inner ?closer" by (simp add: str_def)
  have cl: "match_pair 125 ?closer = Some (?closer, [])"
    using closer_with_tag [OF assms(4), of "[]"] by simp
  from match_lazy_open [OF o] cl
  have lz: "match_lazy 125 (?inner @ ?closer) = Some (?inner, ?closer, [])"
    by simp
  have pat: "match_pattern 123 125 (123 # t1 @ 123 # ?inner @ ?closer)
        = Some (123 # t1 @ 123 # ?inner @ ?closer, ?inner, [])"
    using opener_with_tag [OF assms(1), of "?inner @ ?closer"] lz
    by (simp add: match_pattern_def)
  have "strip_tags ?inner = str ''name''"
    using assms(2,3) strip_tags_tag [of t3 "[]"] strip_tags_plain [of "str ''name''" t3]
    by (simp add: inline_tag_def strip_tags_tag) (simp add: str_def)
  then have "clean_inner ?inner = str ''name''"
    by (simp add: clean_inner_def) (simp add: str_def is_space_def)
  then have "repl 123 125 (123 # t1 @ 123 # ?inner @ ?closer) ?inner = str ''{{name}}''"
    by (simp add: repl_def) (simp add: text_eval)
  with pat show ?thesis
    by (simp add: normalize_jinja_curly_def str_def)
qed

theorem C5_fragmentation_repair_witness:
  "inline_tag (str ''<a}}>'') \<and> inline_tag (str ''<b}>'') \<and> inline_tag (str ''</w:t>'') \<and>
   inline_tag (str ''<c}>'') \<and>
   \<not> closes_inside (str ''<b}>'' @ str ''name'' @ str ''</w:t>'') (str ''}'' @ str ''<c}>'' @ str ''}'') \<and>
   normalize_jinja_curly (str ''{<a}}>{<b}>name</w:t>}<c}>}'') = (str ''{{name}}'', 1)"
proof -
  have t: "inline_tag (str ''<a}}>'')" "inline_tag (str ''<b}>'')" "inline_tag (str ''</w:t>'')"
    "inline_tag (str ''<c}>'')"
    by (simp_all add: inline_tag_def str_def match_tag_def)
  have o: "\<not> closes_inside (str ''<b}>'' @ str ''name'' @ str ''</w:t>'')
             (str ''}'' @ str ''<c}>'' @ str ''}'')"
    by (simp add: str_def match_pair_def match_tag_def is_space_def)
  from C5_fragmentation_repair [OF t o] t o show ?thesis by (simp add: str_def)
qed

subsection \<open>The condition on the interior is needed\<close>

text \<open>
  When a closing pair starts inside the second tag, the word or the third tag, the
  interior that the pattern captures ends there, in the middle of a tag; what is
  captured holds the \<^verbatim>\<open><\<close> of a tag without its \<^verbatim>\<open>>\<close>, the cleaned interior is no
  name and the match is left as it is: the text returned is not \<^verbatim>\<open>{{name}}\<close>.
\<close>

lemma tag_shape:
  assumes "match_tag t = Some (t, [])"
  shows "\<exists>b. t = 60 # b @ [62] \<and> b \<noteq> [] \<and> 62 \<notin> set b"
proof -
  let ?P = "\<lambda>x::nat. x \<noteq> 62"
  from assms obtain cs where t: "t = 60 # cs"
    by (auto simp: match_tag_def split: list.splits if_splits)
  from assms t obtain g where d: "dropWhile ?P cs = [g]" and ne: "takeWhile ?P cs \<noteq> []"
    and t': "t = 60 # takeWhile ?P cs @ [g]"
    by (auto simp: match_tag_def split: list.splits if_splits)
  have "g = 62" using d hd_dropWhile [of ?P cs] by auto
  moreover have "62 \<notin> set (takeWhile ?P cs)" by (auto dest: set_takeWhileD)
  ultimately show ?thesis using t' ne by blast
qed

lemma tag_cut:
  assumes "match_tag t = Some (t, [])" and "t = p @ 125 # u"
  shows "60 \<in> set p \<and> 62 \<notin> set p"
proof -
  from tag_shape [OF assms(1)] obtain b where b: "t = 60 # b @ [62]" "62 \<notin> set b" by blast
  from assms(2) b(1) obtain p' where p: "p = 60 # p'" by (cases p) auto
  from assms(2) b(1) p have e: "b @ [62] = p' @ 125 # u" by simp
  then obtain u' where "u = u' @ [62]"
    by (cases u rule: rev_cases) auto
  with e have "b = p' @ 125 # u'" by simp
  with b(2) p show ?thesis by auto
qed

lemma lazy_early:
  "closes_inside inner after \<Longrightarrow>
   \<exists>i k r w. match_lazy 125 (inner @ after) = Some (i, k, r) \<and> inner = i @ 125 # w"
proof (induction inner)
  case Nil
  then show ?case by simp
next
  case (Cons c cs)
  show ?case
  proof (cases "match_pair 125 (c # cs @ after)")
    case (Some m)
    obtain k r where m: "m = (k, r)" by (cases m)
    from Some have "c = 125" by (auto simp: match_pair_def split: if_splits)
    with Some m show ?thesis by auto
  next
    case None
    with Cons.prems have "closes_inside cs after" by simp
    from Cons.IH [OF this] obtain i k r w where
      "match_lazy 125 (cs @ after) = Some (i, k, r)" "cs = i @ 125 # w" by blast
    with None show ?thesis by auto
  qed
qed

lemma match_tag_no_gt: "62 \<notin> set s \<Longrightarrow> match_tag s = None"
proof (cases s)
  case Nil
  then show ?thesis by (simp add: match_tag_def)
next
  case (Cons c cs)
  assume "62 \<notin> set s"
  with Cons show ?thesis
    by (cases "c = 60") (simp_all add: match_tag_lt_None match_tag_not_lt)
qed

lemma strip_tags_no_gt: "62 \<notin> set s \<Longrightarrow> strip_tags s = s"
  by (induction s) (auto simp: match_tag_no_gt)

lemma py_replace_keeps:
  "x \<in> set s \<Longrightarrow> x \<notin> set old \<Longrightarrow> x \<in> set (py_replace old new s)"
proof (induction old new s rule: py_replace.induct)
  case (1 old new)
  then show ?case by simp
next
  case (2 old new c cs)
  show ?case
  proof (cases "old = []")
    case True
    with 2 show ?thesis by auto
  next
    case False
    show ?thesis
    proof (cases "take (length old) (c # cs) = old")
      case True
      have "set (c # cs) = set (take (length old) (c # cs)) \<union> set (drop (length old) (c # cs))"
        by (metis append_take_drop_id set_append)
      with "2.prems" True have "x \<in> set (drop (length old) (c # cs))" by auto
      from "2.IH"(2) [OF False True this "2.prems"(2)] False True show ?thesis by simp
    next
      case nt: False
      with 2 False show ?thesis by auto
    qed
  qed
qed

lemma clean_inner_keeps_lt: "60 \<in> set (strip_tags s) \<Longrightarrow> 60 \<in> set (clean_inner s)"
  by (simp add: clean_inner_def is_space_def py_replace_keeps str_def)

lemma match_name_no_lt: "60 \<in> set c \<Longrightarrow> match_name c = None"
proof (rule ccontr)
  assume l: "60 \<in> set c" and "match_name c \<noteq> None"
  then obtain a cs where c: "c = a # cs" and a: "is_name_start a"
    and d: "dropWhile is_name_char cs = [] \<or> dropWhile is_name_char cs = [10]"
    by (auto simp: match_name_def split: list.splits if_splits)
  have "cs = takeWhile is_name_char cs @ dropWhile is_name_char cs" by simp
  then have "set cs = set (takeWhile is_name_char cs) \<union> set (dropWhile is_name_char cs)"
    by (metis set_append)
  with d have "\<forall>x \<in> set cs. is_name_char x \<or> x = 10"
    by (auto dest: set_takeWhileD)
  with l c a show False
    by (auto simp: is_name_char_def is_name_start_def)
qed

lemma early_inner_has_lt:
  assumes t2: "match_tag t2 = Some (t2, [])" and t3: "match_tag t3 = Some (t3, [])"
    and e: "i @ 125 # w = t2 @ str ''name'' @ t3"
  shows "60 \<in> set (strip_tags i)"
proof -
  from tag_shape [OF t2] obtain b2 where b2: "t2 = 60 # b2 @ [62]" by blast
  from tag_shape [OF t3] obtain b3 where b3: "t3 = 60 # b3 @ [62]" by blast
  from e consider
    (in_t2) u where "t2 = i @ 125 # u"
    | (in_name) u v where "str ''name'' = u @ 125 # v"
    | (at_t3) "125 # w = t3"
    | (at_name) "125 # w = str ''name'' @ t3"
    | (in_t3) p where "i = t2 @ str ''name'' @ p" "t3 = p @ 125 # w"
  proof -
    from e obtain us where
      "i = t2 @ us \<and> us @ 125 # w = str ''name'' @ t3 \<or> i @ us = t2 \<and> 125 # w = us @ str ''name'' @ t3"
      by (auto simp: append_eq_append_conv2)
    then show ?thesis
    proof
      assume a: "i = t2 @ us \<and> us @ 125 # w = str ''name'' @ t3"
      then obtain vs where
        "us = str ''name'' @ vs \<and> vs @ 125 # w = t3 \<or> us @ vs = str ''name'' \<and> 125 # w = vs @ t3"
        by (auto simp: append_eq_append_conv2)
      then show ?thesis
      proof
        assume "us = str ''name'' @ vs \<and> vs @ 125 # w = t3"
        with a have "i = t2 @ str ''name'' @ vs" "t3 = vs @ 125 # w" by auto
        then show ?thesis by (rule in_t3)
      next
        assume b: "us @ vs = str ''name'' \<and> 125 # w = vs @ t3"
        show ?thesis
        proof (cases vs)
          case Nil
          with b have "125 # w = t3" by simp
          then show ?thesis by (rule at_t3)
        next
          case (Cons x vs')
          with b have "str ''name'' = us @ 125 # vs'" by auto
          then show ?thesis by (rule in_name)
        qed
      qed
    next
      assume a: "i @ us = t2 \<and> 125 # w = us @ str ''name'' @ t3"
      show ?thesis
      proof (cases us)
        case Nil
        with a have "125 # w = str ''name'' @ t3" by simp
        then show ?thesis by (rule at_name)
      next
        case (Cons x us')
        with a have "t2 = i @ 125 # us'" by auto
        then show ?thesis by (rule in_t2)
      qed
    qed
  qed
  then show ?thesis
  proof cases
    case (in_t2 u)
    from tag_cut [OF t2 this] have "60 \<in> set i" "62 \<notin> set i" by simp_all
    then show ?thesis by (simp add: strip_tags_no_gt)
  next
    case (in_name u v)
    then have "125 \<in> set (str ''name'')" by (metis in_set_conv_decomp)
    then show ?thesis by (simp add: str_def)
  next
    case at_t3
    with b3 show ?thesis by simp
  next
    case at_name
    then show ?thesis by (simp add: str_def)
  next
    case (in_t3 p)
    from tag_cut [OF t3 in_t3(2)] have p: "60 \<in> set p" "62 \<notin> set p" by simp_all
    have "strip_tags (t2 @ str ''name'' @ p) = str ''name'' @ strip_tags p"
      using strip_tags_tag [OF t2, of "str ''name'' @ p"] strip_tags_plain [of "str ''name''" p]
      by (simp add: str_def)
    with p in_t3(1) show ?thesis by (simp add: strip_tags_no_gt)
  qed
qed

lemma fragmentation_repair_needs_open_interior:
  assumes "inline_tag t1" "inline_tag t2" "inline_tag t3" "inline_tag t4"
    and c: "closes_inside (t2 @ str ''name'' @ t3) (str ''}'' @ t4 @ str ''}'')"
  shows "fst (normalize_jinja_curly
           (str ''{'' @ t1 @ str ''{'' @ t2 @ str ''name'' @ t3 @ str ''}'' @ t4 @ str ''}''))
         \<noteq> str ''{{name}}''"
proof -
  let ?inner = "t2 @ str ''name'' @ t3"
  let ?closer = "125 # t4 @ [125]"
  from c have "closes_inside ?inner ?closer" by (simp add: str_def)
  from lazy_early [OF this] obtain i k r w where
    lz: "match_lazy 125 (?inner @ ?closer) = Some (i, k, r)" and i: "?inner = i @ 125 # w"
    by blast
  from assms(2,3) i have "60 \<in> set (strip_tags i)"
    by (intro early_inner_has_lt [of t2 t3 i w]) (simp_all add: inline_tag_def)
  then have "match_name (clean_inner i) = None"
    by (intro match_name_no_lt clean_inner_keeps_lt)
  then have r: "repl 123 125 g0 i = g0" for g0 by (simp add: repl_def)
  from assms(1) obtain b where t1: "t1 = 60 # b"
    by (auto simp: inline_tag_def dest: tag_shape)
  have "match_pattern 123 125 (123 # t1 @ 123 # ?inner @ ?closer)
        = Some (123 # t1 @ 123 # i @ k, i, r)"
    using opener_with_tag [OF assms(1), of "?inner @ ?closer"] lz
    by (simp add: match_pattern_def)
  then have "fst (subn 123 125 (123 # t1 @ 123 # ?inner @ ?closer))
             = (123 # t1 @ 123 # i @ k) @ fst (subn 123 125 r)"
    using r by (simp add: subn_Some del: subn.simps)
  then show ?thesis
    by (simp add: normalize_jinja_curly_def str_def t1)
qed


section \<open>Properties of the rewrite pass and of the census\<close>

subsection \<open>Evaluation of the examples\<close>

lemma str_paths: "str ''out.docx'' \<noteq> str ''in.docx''"
  by (simp add: str_def)

lemma ex_fault_header:
  "normalize_entry False (255 # ascii ''{ {a}}'') tot = (ascii ''{{a}}'', tot + 1)"
proof -
  have "utf8_decode_ignore (255 # ascii ''{ {a}}'') = str ''{ {a}}''"
    by (simp add: container_eval str_def)
  moreover have "normalize_jinja_curly (str ''{ {a}}'') = (str ''{{a}}'', 1)"
    by (simp add: text_eval)
  moreover have "utf8_encode (str ''{{a}}'') = Some (ascii ''{{a}}'')"
    by (simp add: container_eval str_def)
  ultimately show ?thesis by (simp add: normalize_entry_def)
qed

lemma ex_fault_document:
  "normalize_entry False (ascii ''{<w:t>{</w:t>name<w:t>}</w:t>}'') tot
   = (ascii ''{{name}}'', tot + 1)"
proof -
  have "utf8_decode_ignore (ascii ''{<w:t>{</w:t>name<w:t>}</w:t>}'')
        = str ''{<w:t>{</w:t>name<w:t>}</w:t>}''"
    by (simp add: container_eval str_def)
  moreover have "normalize_jinja_curly (str ''{<w:t>{</w:t>name<w:t>}</w:t>}'')
                 = (str ''{{name}}'', 1)"
    by (simp add: text_eval)
  moreover have "utf8_encode (str ''{{name}}'') = Some (ascii ''{{name}}'')"
    by (simp add: container_eval str_def)
  ultimately show ?thesis by (simp add: normalize_entry_def)
qed

lemma ex_fault_read:
  "zread False ex_fault (str ''word/header1.xml'') = Inr (255 # ascii ''{ {a}}'')"
  "zread False ex_fault (str ''word/document.xml'') = Inr (ascii ''{<w:t>{</w:t>name<w:t>}</w:t>}'')"
  by (simp_all add: ex_fault_def zread_def NameToInfo_def str_def)

lemma ex_infolist:
  "infolist ex_fault = [\<lparr>filename = str ''word/header1.xml'', meta = 1\<rparr>,
                        \<lparr>filename = str ''word/document.xml'', meta = 2\<rparr>]"
  "infolist ex_duplicate = [\<lparr>filename = str ''media/logo.bin'', meta = 1\<rparr>,
                            \<lparr>filename = str ''media/logo.bin'', meta = 2\<rparr>]"
  "infolist ex_census = [\<lparr>filename = str ''docProps/app.xml'', meta = 1\<rparr>,
                         \<lparr>filename = str ''word/document.xml'', meta = 2\<rparr>]"
  "infolist ex_damaged = [\<lparr>filename = str ''word/document.xml'', meta = 1\<rparr>]"
  by (simp_all add: infolist_def ex_fault_def ex_duplicate_def ex_census_def ex_damaged_def)

lemma qualifying_examples:
  "qualifying (str ''word/header1.xml'')"
  "qualifying (str ''word/document.xml'')"
  "\<not> qualifying (str ''media/logo.bin'')"
  "\<not> qualifying (str ''docProps/app.xml'')"
  by (simp_all add: qualifying_def str_def suffix_to_prefix)

text \<open>
  C2. The claim: a qualifying entry whose bytes are not valid UTF-8 is written to the
  destination as it is, and does not change the total. The source decodes with the
  error handler \<^verbatim>\<open>ignore\<close>, which never fails: in the example the byte 0xFF of the first
  entry is dropped, the rest of the entry is rewritten and counted, and the entry
  written differs from the one read. The second entry is repaired and the call returns.
\<close>

theorem C2_undecodable_entry_is_rewritten:
  "normalize_docx [str ''in.docx'' \<mapsto> Archive ex_fault] (str ''in.docx'') (str ''out.docx'') False =
     ([str ''in.docx'' \<mapsto> Archive ex_fault,
       str ''out.docx'' \<mapsto> Archive
         [(\<lparr>filename = str ''word/header1.xml'', meta = 1\<rparr>, Stored (ascii ''{{a}}'')),
          (\<lparr>filename = str ''word/document.xml'', meta = 2\<rparr>, Stored (ascii ''{{name}}''))]],
      Inr 2)"
proof -
  have "rewrite_entries False (zread False ex_fault) (infolist ex_fault) [] 0 =
        ([(\<lparr>filename = str ''word/header1.xml'', meta = 1\<rparr>, Stored (ascii ''{{a}}'')),
          (\<lparr>filename = str ''word/document.xml'', meta = 2\<rparr>, Stored (ascii ''{{name}}''))],
         Inr 2)"
    by (simp add: ex_infolist ex_fault_read qualifying_examples ex_fault_header
          ex_fault_document)
  then show ?thesis
    by (simp add: normalize_docx_def str_paths)
qed

text \<open>
  C6. The claim: every entry that does not qualify reaches the destination with the
  bytes it has in the source, for every container. The source reads each entry by its
  name, and of two entries with one name \<^verbatim>\<open>read\<close> finds the second: in the example both
  entries of the destination carry the bytes of the second entry of the source. Order,
  names and metadata are kept.
\<close>

theorem C6_duplicate_name_loses_content:
  "normalize_docx [str ''in.docx'' \<mapsto> Archive ex_duplicate] (str ''in.docx'') (str ''out.docx'') False =
     ([str ''in.docx'' \<mapsto> Archive ex_duplicate,
       str ''out.docx'' \<mapsto> Archive
         [(\<lparr>filename = str ''media/logo.bin'', meta = 1\<rparr>, Stored [4, 5]),
          (\<lparr>filename = str ''media/logo.bin'', meta = 2\<rparr>, Stored [4, 5])]],
      Inr 0)"
proof -
  have "zread False ex_duplicate (str ''media/logo.bin'') = Inr [4, 5]"
    by (simp add: ex_duplicate_def zread_def NameToInfo_def)
  then have "rewrite_entries False (zread False ex_duplicate) (infolist ex_duplicate) [] 0 =
        ([(\<lparr>filename = str ''media/logo.bin'', meta = 1\<rparr>, Stored [4, 5]),
          (\<lparr>filename = str ''media/logo.bin'', meta = 2\<rparr>, Stored [4, 5])], Inr 0)"
    by (simp add: ex_infolist qualifying_examples)
  then show ?thesis
    by (simp add: normalize_docx_def str_paths)
qed

text \<open>
  C7. When the source path does not exist, \<^verbatim>\<open>normalize_docx\<close> raises
  \<^verbatim>\<open>FileNotFoundError\<close> and the file system is as before the call: no destination is
  created.
\<close>

theorem C7_missing_source:
  "fs input_path = None \<Longrightarrow>
   normalize_docx fs input_path output_path enable_square = (fs, Inl FileNotFoundError)"
  by (simp add: normalize_docx_def)

theorem C7_missing_source_witness:
  "[str ''other.docx'' \<mapsto> Archive ex_census] (str ''in.docx'') = None \<and>
   normalize_docx [str ''other.docx'' \<mapsto> Archive ex_census] (str ''in.docx'') (str ''out.docx'') True
     = ([str ''other.docx'' \<mapsto> Archive ex_census], Inl FileNotFoundError) \<and>
   [str ''other.docx'' \<mapsto> Archive ex_census] (str ''out.docx'') = None"
  using C7_missing_source [of "[str ''other.docx'' \<mapsto> Archive ex_census]" "str ''in.docx''"
          "str ''out.docx''" True]
  by (simp add: str_def)

text \<open>
  C8. \<^verbatim>\<open>_detect_tags\<close> always returns a list to its caller. When its body raises (the
  path does not exist, the file is no archive, a member cannot be read), the list is
  empty and the exception is logged.
\<close>

theorem C8_detect_tags_never_raises:
  "(\<exists>found. fst (detect_tags fs docx_path) = Inr found) \<and>
   (fs docx_path = None \<longrightarrow> detect_tags fs docx_path = (Inr [], [FileNotFoundError])) \<and>
   (\<forall>content. fs docx_path = Some (Other content) \<longrightarrow>
      detect_tags fs docx_path = (Inr [], [BadZipFile])) \<and>
   (\<forall>e. detect_tags_body fs docx_path = Inl e \<longrightarrow> detect_tags fs docx_path = (Inr [], [e]))"
  by (auto simp: detect_tags_def detect_tags_body_def split: sum.splits option.splits)

theorem C8_detect_tags_never_raises_witness:
  "Map.empty (str ''t.docx'') = (None :: nat fobj option) \<and>
   detect_tags (Map.empty :: nat fs) (str ''t.docx'') = (Inr [], [FileNotFoundError]) \<and>
   detect_tags ([str ''t.docx'' \<mapsto> Other (ascii ''plain text'')] :: nat fs) (str ''t.docx'')
     = (Inr [], [BadZipFile]) \<and>
   detect_tags_body [str ''t.docx'' \<mapsto> Archive ex_damaged] (str ''t.docx'') = Inl RuntimeError \<and>
   detect_tags [str ''t.docx'' \<mapsto> Archive ex_damaged] (str ''t.docx'') = (Inr [], [RuntimeError])"
proof -
  have b: "detect_tags_body [str ''t.docx'' \<mapsto> Archive ex_damaged] (str ''t.docx'') = Inl RuntimeError"
    by (simp add: detect_tags_body_def ex_infolist qualifying_examples)
       (simp add: ex_damaged_def zread_def NameToInfo_def)
  show ?thesis
    using b
      C8_detect_tags_never_raises [of "Map.empty :: nat fs" "str ''t.docx''"]
      C8_detect_tags_never_raises [of "[str ''t.docx'' \<mapsto> Other (ascii ''plain text'')] :: nat fs"
        "str ''t.docx''"]
      C8_detect_tags_never_raises [of "[str ''t.docx'' \<mapsto> Archive ex_damaged]" "str ''t.docx''"]
    by simp
qed

subsection \<open>The census is the first-seen list of the matches\<close>

lemma collect_append: "collect (xs @ ys) st = collect ys (collect xs st)"
  by (induction xs st rule: collect.induct) auto

lemma collect_first_seen: "collect xs ([], {}) = (first_seen xs, set xs)"
proof (induction xs rule: rev_induct)
  case Nil
  then show ?case by (simp add: first_seen_def)
next
  case (snoc x xs)
  then show ?case by (simp add: collect_append first_seen_def insert_absorb)
qed

lemma scan_entries_collect:
  assumes "\<forall>item \<in> set items. qualifying (filename item) \<longrightarrow> (\<exists>data. rd (filename item) = Inr data)"
  shows "scan_entries rd items st =
         Inr (collect (concat (map (\<lambda>item. case rd (filename item) of
                                       Inr data \<Rightarrow> finditer (utf8_decode_ignore data)
                                     | Inl e \<Rightarrow> [])
                (filter (\<lambda>item. qualifying (filename item)) items))) st)"
  using assms
proof (induction items arbitrary: st)
  case Nil
  then show ?case by simp
next
  case (Cons item items)
  show ?case
  proof (cases "qualifying (filename item)")
    case False
    with Cons show ?thesis by simp
  next
    case True
    with Cons.prems obtain data where d: "rd (filename item) = Inr data"
      by auto
    have "scan_entries rd (item # items) st =
          scan_entries rd items (collect (finditer (utf8_decode_ignore data)) st)"
      using True d by simp
    also have "\<dots> = Inr (collect (concat (map (\<lambda>item. case rd (filename item) of
                                       Inr data \<Rightarrow> finditer (utf8_decode_ignore data)
                                     | Inl e \<Rightarrow> [])
                 (filter (\<lambda>item. qualifying (filename item)) items)))
                 (collect (finditer (utf8_decode_ignore data)) st))"
      using Cons.prems by (intro Cons.IH) simp
    finally show ?thesis
      using True d by (simp add: collect_append)
  qed
qed

lemma ex_repeat_names:
  "finditer (utf8_decode_ignore (ascii ''{{p}}{{q}}'')) = [str ''p'', str ''q'']"
  "finditer (utf8_decode_ignore (ascii ''{{q}}{{p}}'')) = [str ''q'', str ''p'']"
proof -
  have "utf8_decode_ignore (ascii ''{{p}}{{q}}'') = str ''{{p}}{{q}}''"
    "utf8_decode_ignore (ascii ''{{q}}{{p}}'') = str ''{{q}}{{p}}''"
    by (simp_all add: container_eval str_def)
  then show "finditer (utf8_decode_ignore (ascii ''{{p}}{{q}}'')) = [str ''p'', str ''q'']"
    "finditer (utf8_decode_ignore (ascii ''{{q}}{{p}}'')) = [str ''q'', str ''p'']"
    by (simp_all add: str_def match_placeholder_def is_space_def is_name_start_def
          is_name_char_def)
qed

text \<open>
  C9. The claim: the list returned is in first-seen order, the qualifying entries
  taken in directory order and the matches of each entry in match order. The source
  reads each entry by its name, and of two entries with one name \<^verbatim>\<open>read\<close> finds the
  second: in the example, whose first entry holds p, q and whose second entry, of the
  same name, holds q, p, the text of the second entry is scanned twice and the list
  returned is q, p, where the order of the claim is p, q.
\<close>

theorem C9_repeated_name_census:
  "fst (detect_tags [str ''t.docx'' \<mapsto> Archive ex_repeat] (str ''t.docx''))
     = Inr [str ''q'', str ''p''] \<and>
   census ex_repeat = [str ''p'', str ''q'']"
proof -
  have i: "infolist ex_repeat = [\<lparr>filename = str ''word/document.xml'', meta = 1\<rparr>,
                                 \<lparr>filename = str ''word/document.xml'', meta = 2\<rparr>]"
    by (simp add: infolist_def ex_repeat_def)
  have r: "zread False ex_repeat (str ''word/document.xml'') = Inr (ascii ''{{q}}{{p}}'')"
    by (simp add: ex_repeat_def zread_def NameToInfo_def)
  have "fst (detect_tags [str ''t.docx'' \<mapsto> Archive ex_repeat] (str ''t.docx''))
        = Inr [str ''q'', str ''p'']"
    by (simp add: detect_tags_def detect_tags_body_def i qualifying_examples r ex_repeat_names)
       (simp add: str_def)
  moreover have "census ex_repeat = [str ''p'', str ''q'']"
    by (simp add: census_def ex_repeat_def qualifying_examples entry_names_def ex_repeat_names
          first_seen_def)
       (simp add: str_def)
  ultimately show ?thesis by simp
qed

lemma ex_census_vars:
  "finditer (utf8_decode_ignore (ascii ''<w:t>{{a}}</w:t><w:t>{{b}}</w:t><w:t>{{a}}</w:t>''))
   = [str ''a'', str ''b'', str ''a'']"
proof -
  have "utf8_decode_ignore (ascii ''<w:t>{{a}}</w:t><w:t>{{b}}</w:t><w:t>{{a}}</w:t>'')
        = str ''<w:t>{{a}}</w:t><w:t>{{b}}</w:t><w:t>{{a}}</w:t>''"
    by (simp add: container_eval str_def)
  then show ?thesis
    by (simp add: str_def match_placeholder_def is_space_def is_name_start_def is_name_char_def)
qed

lemma ex_census_read:
  "zread False ex_census (str ''word/document.xml'')
   = Inr (ascii ''<w:t>{{a}}</w:t><w:t>{{b}}</w:t><w:t>{{a}}</w:t>'')"
  by (simp add: ex_census_def zread_def NameToInfo_def str_def)

subsection \<open>Where the census finds a name\<close>

lemma finditer_shape:
  "var \<in> set (finditer s) \<Longrightarrow>
   \<exists>pre ws1 ws2 post. s = pre @ [123, 123] @ ws1 @ var @ ws2 @ [125, 125] @ post \<and>
      (\<forall>c \<in> set ws1. is_space c) \<and> (\<forall>c \<in> set ws2. is_space c) \<and>
      var \<noteq> [] \<and> is_name_start (hd var) \<and> (\<forall>c \<in> set var. is_name_char c)"
proof (induction s rule: finditer.induct)
  case 1
  then show ?case by simp
next
  case (2 c cs)
  show ?case
  proof (cases "match_placeholder (c # cs)")
    case None
    with "2.prems" have "var \<in> set (finditer cs)" by simp
    with "2.IH"(1) [OF None] obtain pre ws1 ws2 post where
      "cs = pre @ [123, 123] @ ws1 @ var @ ws2 @ [125, 125] @ post"
      "(\<forall>c \<in> set ws1. is_space c) \<and> (\<forall>c \<in> set ws2. is_space c) \<and>
       var \<noteq> [] \<and> is_name_start (hd var) \<and> (\<forall>c \<in> set var. is_name_char c)"
      by auto
    then have "c # cs = (c # pre) @ [123, 123] @ ws1 @ var @ ws2 @ [125, 125] @ post" by simp
    with \<open>_ \<and> _\<close> show ?thesis by blast
  next
    case (Some m)
    obtain v rest where m: "m = (v, rest)" by (cases m)
    from match_placeholder_shape [of "c # cs" v rest] Some m obtain ws1 ws2 where
      sh: "c # cs = [123, 123] @ ws1 @ v @ ws2 @ [125, 125] @ rest"
      "(\<forall>c \<in> set ws1. is_space c) \<and> (\<forall>c \<in> set ws2. is_space c) \<and>
       v \<noteq> [] \<and> is_name_start (hd v) \<and> (\<forall>c \<in> set v. is_name_char c)"
      by auto
    from "2.prems" Some m have "var = v \<or> var \<in> set (finditer rest)" by simp
    then show ?thesis
    proof
      assume "var = v"
      with sh have "c # cs = [] @ [123, 123] @ ws1 @ var @ ws2 @ [125, 125] @ rest" by simp
      with sh(2) \<open>var = v\<close> show ?thesis by blast
    next
      assume "var \<in> set (finditer rest)"
      with "2.IH"(2) [OF Some m [symmetric]] obtain pre w1 w2 post where
        r: "rest = pre @ [123, 123] @ w1 @ var @ w2 @ [125, 125] @ post"
        "(\<forall>c \<in> set w1. is_space c) \<and> (\<forall>c \<in> set w2. is_space c) \<and>
         var \<noteq> [] \<and> is_name_start (hd var) \<and> (\<forall>c \<in> set var. is_name_char c)"
        by auto
      from sh(1) r(1) have "c # cs = ([123, 123] @ ws1 @ v @ ws2 @ [125, 125] @ pre) @ [123, 123] @ w1 @ var @ w2 @ [125, 125] @ post"
        by simp
      with r(2) show ?thesis by blast
    qed
  qed
qed

lemma collect_found:
  "var \<in> set (fst (collect vars st)) \<Longrightarrow> var \<in> set (fst st) \<or> var \<in> set vars"
  by (induction vars st rule: collect.induct) (auto split: if_splits)

lemma scan_entries_found:
  assumes "scan_entries rd items st = Inr st'" and "var \<in> set (fst st')"
  shows "var \<in> set (fst st) \<or>
         (\<exists>item \<in> set items. qualifying (filename item) \<and>
            (\<exists>data. rd (filename item) = Inr data \<and>
               var \<in> set (finditer (utf8_decode_ignore data))))"
  using assms
proof (induction items arbitrary: st)
  case Nil
  then show ?case by simp
next
  case (Cons item items)
  show ?case
  proof (cases "qualifying (filename item)")
    case False
    with Cons.prems have "scan_entries rd items st = Inr st'" by simp
    from Cons.IH [OF this Cons.prems(2)] show ?thesis by auto
  next
    case True
    with Cons.prems(1) obtain data where d: "rd (filename item) = Inr data"
      and s: "scan_entries rd items (collect (finditer (utf8_decode_ignore data)) st) = Inr st'"
      by (auto split: sum.splits)
    from Cons.IH [OF s Cons.prems(2)] show ?thesis
    proof
      assume "var \<in> set (fst (collect (finditer (utf8_decode_ignore data)) st))"
      then have "var \<in> set (fst st) \<or> var \<in> set (finditer (utf8_decode_ignore data))"
        by (rule collect_found)
      with True d show ?thesis by auto
    next
      assume "\<exists>item \<in> set items. qualifying (filename item) \<and>
            (\<exists>data. rd (filename item) = Inr data \<and>
               var \<in> set (finditer (utf8_decode_ignore data)))"
      then show ?thesis by auto
    qed
  qed
qed

text \<open>
  C4, as claimed: a name is reported only where the text has the contiguous form, with
  nothing between the braces and the name. The pattern of the source allows white
  space there: the name is reported for a text with blanks inside the braces, which
  does not contain the contiguous form.
\<close>

theorem C4_spaced_placeholder_is_reported:
  "zread False ex_spaced (str ''word/document.xml'') = Inr (ascii ''{{ name }}'') \<and>
   utf8_decode_ignore (ascii ''{{ name }}'') = str ''{{ name }}'' \<and>
   fst (detect_tags [str ''t.docx'' \<mapsto> Archive ex_spaced] (str ''t.docx'')) = Inr [str ''name''] \<and>
   \<not> sublist (str ''{{name}}'') (str ''{{ name }}'')"
proof -
  have r: "zread False ex_spaced (str ''word/document.xml'') = Inr (ascii ''{{ name }}'')"
    by (simp add: ex_spaced_def zread_def NameToInfo_def)
  have d: "utf8_decode_ignore (ascii ''{{ name }}'') = str ''{{ name }}''"
    by (simp add: container_eval str_def)
  have f: "finditer (str ''{{ name }}'') = [str ''name'']"
    by (simp add: str_def match_placeholder_def is_space_def is_name_start_def is_name_char_def)
  have i: "infolist ex_spaced = [\<lparr>filename = str ''word/document.xml'', meta = 1\<rparr>]"
    by (simp add: infolist_def ex_spaced_def)
  have "fst (detect_tags [str ''t.docx'' \<mapsto> Archive ex_spaced] (str ''t.docx''))
        = Inr [str ''name'']"
    by (simp add: detect_tags_def detect_tags_body_def i qualifying_examples r d f)
  moreover have "\<not> sublist (str ''{{name}}'') (str ''{{ name }}'')"
    by (simp add: str_def sublist_code del: sublist_code(1))
  ultimately show ?thesis using r d by simp
qed

text \<open>
  C4, amended: a name is reported only where the decoded text of a qualifying entry
  contains two opening braces, white space (possibly none), the name, white space
  (possibly none) and two closing braces, the name being a letter or underscore followed
  by letters, digits, underscores and hyphens. No markup is allowed in between.
\<close>

theorem C4_reported_name_has_placeholder:
  assumes "fst (detect_tags fs docx_path) = Inr found" and "var \<in> set found"
  shows "\<exists>z item data pre ws1 ws2 post.
           fs docx_path = Some (Archive z) \<and> item \<in> set (infolist z) \<and>
           qualifying (filename item) \<and> zread False z (filename item) = Inr data \<and>
           utf8_decode_ignore data = pre @ str ''{{'' @ ws1 @ var @ ws2 @ str ''}}'' @ post \<and>
           (\<forall>c \<in> set ws1. is_space c) \<and> (\<forall>c \<in> set ws2. is_space c) \<and>
           var \<noteq> [] \<and> is_name_start (hd var) \<and> (\<forall>c \<in> set var. is_name_char c)"
proof -
  from assms have ne: "found \<noteq> []" by auto
  with assms(1) obtain z where z: "fs docx_path = Some (Archive z)"
    by (auto simp: detect_tags_def detect_tags_body_def split: option.splits fobj.splits sum.splits)
  with assms(1) ne obtain seen where
    sc: "scan_entries (zread False z) (infolist z) ([], {}) = Inr (found, seen)"
    by (auto simp: detect_tags_def detect_tags_body_def split: sum.splits)
  from scan_entries_found [OF sc, of var] assms(2) have
    "\<exists>item \<in> set (infolist z). qualifying (filename item) \<and>
       (\<exists>data. zread False z (filename item) = Inr data \<and>
          var \<in> set (finditer (utf8_decode_ignore data)))"
    by simp
  then obtain item data where
    i: "item \<in> set (infolist z)" "qualifying (filename item)"
      "zread False z (filename item) = Inr data"
      "var \<in> set (finditer (utf8_decode_ignore data))"
    by blast
  from finditer_shape [OF i(4)] obtain pre ws1 ws2 post where
    "utf8_decode_ignore data = pre @ [123, 123] @ ws1 @ var @ ws2 @ [125, 125] @ post"
    "(\<forall>c \<in> set ws1. is_space c) \<and> (\<forall>c \<in> set ws2. is_space c) \<and>
     var \<noteq> [] \<and> is_name_start (hd var) \<and> (\<forall>c \<in> set var. is_name_char c)"
    by blast
  then have "utf8_decode_ignore data = pre @ str ''{{'' @ ws1 @ var @ ws2 @ str ''}}'' @ post \<and>
     (\<forall>c \<in> set ws1. is_space c) \<and> (\<forall>c \<in> set ws2. is_space c) \<and>
     var \<noteq> [] \<and> is_name_start (hd var) \<and> (\<forall>c \<in> set var. is_name_char c)"
    by (simp add: str_def)
  with z i(1-3) show ?thesis by blast
qed

theorem C4_reported_name_has_placeholder_witness:
  "fst (detect_tags [str ''t.docx'' \<mapsto> Archive ex_census] (str ''t.docx''))
     = Inr [str ''a'', str ''b''] \<and>
   str ''b'' \<in> set [str ''a'', str ''b''] \<and>
   (\<exists>z item data pre ws1 ws2 post.
      [str ''t.docx'' \<mapsto> Archive ex_census] (str ''t.docx'') = Some (Archive z) \<and>
      item \<in> set (infolist z) \<and>
      qualifying (filename item) \<and> zread False z (filename item) = Inr data \<and>
      utf8_decode_ignore data = pre @ str ''{{'' @ ws1 @ str ''b'' @ ws2 @ str ''}}'' @ post \<and>
      (\<forall>c \<in> set ws1. is_space c) \<and> (\<forall>c \<in> set ws2. is_space c) \<and>
      str ''b'' \<noteq> [] \<and> is_name_start (hd (str ''b'')) \<and>
      (\<forall>c \<in> set (str ''b''). is_name_char c))"
proof -
  have d: "fst (detect_tags [str ''t.docx'' \<mapsto> Archive ex_census] (str ''t.docx''))
           = Inr [str ''a'', str ''b'']"
    by (simp add: detect_tags_def detect_tags_body_def ex_infolist qualifying_examples
          ex_census_read ex_census_vars)
       (simp add: str_def)
  have m: "str ''b'' \<in> set [str ''a'', str ''b'']" by simp
  from C4_reported_name_has_placeholder [OF d m] d m show ?thesis by blast
qed


subsection \<open>Archives whose entry names are distinct\<close>

text \<open>
  When no two entries have the same name, reading by name reads the entry itself.
\<close>

lemma NameToInfo_fold_other:
  "name \<notin> set (map (\<lambda>m. filename (fst m)) z) \<Longrightarrow>
   fold (\<lambda>m d. d(filename (fst m) \<mapsto> m)) z d name = d name"
  by (induction z arbitrary: d) auto

lemma NameToInfo_fold_distinct:
  "distinct (map (\<lambda>m. filename (fst m)) z) \<Longrightarrow> m \<in> set z \<Longrightarrow>
   fold (\<lambda>m d. d(filename (fst m) \<mapsto> m)) z d (filename (fst m)) = Some m"
proof (induction z arbitrary: d)
  case Nil
  then show ?case by simp
next
  case (Cons a z)
  show ?case
  proof (cases "m = a")
    case True
    let ?F = "\<lambda>m d. d(filename (fst m) \<mapsto> m)"
    have "fold ?F (a # z) d (filename (fst a))
          = fold ?F z (d(filename (fst a) \<mapsto> a)) (filename (fst a))"
      by (simp only: fold_simps comp_apply)
    also have "\<dots> = (d(filename (fst a) \<mapsto> a)) (filename (fst a))"
      using Cons.prems(1) by (intro NameToInfo_fold_other) simp
    also have "\<dots> = Some a" by simp
    finally show ?thesis unfolding True .
  next
    case False
    with Cons show ?thesis by simp
  qed
qed

lemma zread_distinct:
  assumes "distinct (map (\<lambda>m. filename (fst m)) z)" "m \<in> set z"
  shows "zread False z (filename (fst m)) =
         (case snd m of Stored data \<Rightarrow> Inr data | Unreadable e \<Rightarrow> Inl e)"
  using NameToInfo_fold_distinct [OF assms, of Map.empty]
  by (simp add: zread_def NameToInfo_def)

lemma zread_distinct_Stored:
  assumes "distinct (map (\<lambda>m. filename (fst m)) z)" "m \<in> set z"
    and "zread truncated z (filename (fst m)) = Inr data"
  shows "snd m = Stored data"
  using assms(3) NameToInfo_fold_distinct [OF assms(1,2), of Map.empty]
  by (auto simp: zread_def NameToInfo_def split: if_splits payload.splits)

text \<open>
  When no two entries of the source have the same name and the call returns, the
  destination has the entries of the source in the same order, with the same names and
  metadata, and every entry that does not qualify has the bytes it has in the source.
\<close>

lemma rewrite_entries_frame:
  "rewrite_entries sq rd items zout tot = (zout', Inr n) \<Longrightarrow>
   map fst zout' = map fst zout @ items \<and>
   take (length zout) zout' = zout \<and>
   (\<forall>i < length items. \<not> qualifying (filename (items ! i)) \<longrightarrow>
      (\<exists>data. rd (filename (items ! i)) = Inr data \<and>
         snd (zout' ! (length zout + i)) = Stored data))"
proof (induction items arbitrary: zout tot)
  case Nil
  then show ?case by simp
next
  case (Cons item items)
  from Cons.prems obtain data where d: "rd (filename item) = Inr data"
    by (auto split: sum.splits)
  obtain data' tot' where e:
    "(if qualifying (filename item) then normalize_entry sq data tot else (data, tot)) = (data', tot')"
    by (cases "if qualifying (filename item) then normalize_entry sq data tot else (data, tot)")
  with Cons.prems d have r:
    "rewrite_entries sq rd items (zout @ [(item, Stored data')]) tot' = (zout', Inr n)"
    by simp
  from Cons.IH [OF r] have ih:
    "map fst zout' = map fst (zout @ [(item, Stored data')]) @ items"
    "take (length (zout @ [(item, Stored data')])) zout' = zout @ [(item, Stored data')]"
    "\<forall>i < length items. \<not> qualifying (filename (items ! i)) \<longrightarrow>
      (\<exists>data. rd (filename (items ! i)) = Inr data \<and>
         snd (zout' ! (length (zout @ [(item, Stored data')]) + i)) = Stored data)"
    by blast+
  from ih(2) have t: "take (Suc (length zout)) zout' = zout @ [(item, Stored data')]" by simp
  have "take (length zout) zout' = take (length zout) (take (Suc (length zout)) zout')"
    by (simp add: min_def)
  with t have t0: "take (length zout) zout' = zout" by simp
  have "zout' ! length zout = take (Suc (length zout)) zout' ! length zout" by simp
  with t have nth0: "zout' ! length zout = (item, Stored data')" by simp
  have "\<forall>i < length (item # items). \<not> qualifying (filename ((item # items) ! i)) \<longrightarrow>
      (\<exists>data. rd (filename ((item # items) ! i)) = Inr data \<and>
         snd (zout' ! (length zout + i)) = Stored data)"
  proof (intro allI impI)
    fix i assume i: "i < length (item # items)" and q: "\<not> qualifying (filename ((item # items) ! i))"
    show "\<exists>data. rd (filename ((item # items) ! i)) = Inr data \<and>
         snd (zout' ! (length zout + i)) = Stored data"
    proof (cases i)
      case 0
      with q e have "data' = data" by simp
      with 0 d nth0 show ?thesis by simp
    next
      case (Suc j)
      with i q ih(3) show ?thesis by simp
    qed
  qed
  with ih(1) t0 show ?case by simp
qed

lemma normalize_docx_frame:
  assumes "fs input_path = Some (Archive zin)"
    and "distinct (map (\<lambda>m. filename (fst m)) zin)"
    and "normalize_docx fs input_path output_path enable_square = (fs', Inr n)"
  shows "\<exists>zout. fs' output_path = Some (Archive zout) \<and> map fst zout = map fst zin \<and>
           (\<forall>i < length zin. \<not> qualifying (filename (fst (zin ! i))) \<longrightarrow>
              snd (zout ! i) = snd (zin ! i))"
proof -
  from assms(1,3) obtain zout where
    r: "rewrite_entries enable_square (zread (output_path = input_path) zin) (infolist zin) [] 0
        = (zout, Inr n)" and f: "fs' = fs(output_path \<mapsto> Archive zout)"
    by (auto simp: normalize_docx_def split: prod.splits)
  from rewrite_entries_frame [OF r] have
    m: "map fst zout = infolist zin" and
    a: "\<forall>i < length (infolist zin). \<not> qualifying (filename (infolist zin ! i)) \<longrightarrow>
      (\<exists>data. zread (output_path = input_path) zin (filename (infolist zin ! i)) = Inr data \<and>
         snd (zout ! i) = Stored data)"
    by auto
  have "\<forall>i < length zin. \<not> qualifying (filename (fst (zin ! i))) \<longrightarrow>
              snd (zout ! i) = snd (zin ! i)"
  proof (intro allI impI)
    fix i assume i: "i < length zin" and q: "\<not> qualifying (filename (fst (zin ! i)))"
    with a obtain data where
      d: "zread (output_path = input_path) zin (filename (fst (zin ! i))) = Inr data"
        "snd (zout ! i) = Stored data"
      by (auto simp: infolist_def)
    from zread_distinct_Stored [OF assms(2) _ d(1)] i have "snd (zin ! i) = Stored data" by simp
    with d(2) show "snd (zout ! i) = snd (zin ! i)" by simp
  qed
  with m f show ?thesis by (simp add: infolist_def)
qed

text \<open>
  When no two entries have the same name and the qualifying entries can be read, the
  list that \<^verbatim>\<open>_detect_tags\<close> returns is the census: the names of the qualifying entries,
  entry by entry in directory order, in first-seen order without duplicates.
\<close>

lemma detect_tags_census:
  assumes "fs docx_path = Some (Archive z)"
    and "distinct (map (\<lambda>m. filename (fst m)) z)"
    and "\<forall>m \<in> set z. qualifying (filename (fst m)) \<longrightarrow> (\<exists>data. snd m = Stored data)"
  shows "fst (detect_tags fs docx_path) = Inr (census z)"
proof -
  let ?rd = "zread False z"
  let ?f = "\<lambda>item. case ?rd (filename item) of
                      Inr data \<Rightarrow> finditer (utf8_decode_ignore data) | Inl e \<Rightarrow> []"
  have rd: "\<forall>item \<in> set (infolist z). qualifying (filename item) \<longrightarrow>
              (\<exists>data. ?rd (filename item) = Inr data)"
    using assms(3) zread_distinct [OF assms(2)] by (auto simp: infolist_def)
  have e1: "filter (\<lambda>item. qualifying (filename item)) (infolist z)
        = map fst (filter (\<lambda>m. qualifying (filename (fst m))) z)"
    by (simp add: infolist_def filter_map comp_def)
  have e2: "map ?f (map fst (filter (\<lambda>m. qualifying (filename (fst m))) z))
        = map entry_names (filter (\<lambda>m. qualifying (filename (fst m))) z)"
    using zread_distinct [OF assms(2)]
    by (auto simp: entry_names_def split: payload.splits)
  have "concat (map ?f (filter (\<lambda>item. qualifying (filename item)) (infolist z)))
        = concat (map entry_names (filter (\<lambda>m. qualifying (filename (fst m))) z))"
    unfolding e1 e2 by (rule refl)
  with scan_entries_collect [OF rd, of "([], {})"] assms(1) show ?thesis
    by (simp add: detect_tags_def detect_tags_body_def collect_first_seen census_def)
qed


end
